theory Spec2Isabelle
  imports Main "HOL-Library.Word"
begin

unbundle bit_operations_syntax

section \<open>The generated UART register accessor (gen\_uart\_regs.py, class UartRegs)\<close>

subsection \<open>Register schema\<close>

text \<open>
  The accessor script holds the schema as a list of tuples
  \<^verbatim>\<open>(name, mode, length, data_type)\<close>. RegisterAction only lets the modes
  \<^verbatim>\<open>in\<close>, \<^verbatim>\<open>out\<close> and the four type names through, rejects a
  non-positive length and a repeated name.
\<close>

datatype mode = In | Out

datatype data_type = Unsigned | Signed | Std_logic_vector | Std_logic

type_synonym register = "string \<times> mode \<times> nat \<times> data_type"

definition reg_names :: "register list \<Rightarrow> string list" where
  "reg_names registers = map fst registers"

definition valid_schema :: "register list \<Rightarrow> bool" where
  "valid_schema registers \<longleftrightarrow>
     distinct (reg_names registers) \<and> list_all (\<lambda>(name, md, len, ty). 0 < len) registers"

subsection \<open>Bytes and protocol constants\<close>

type_synonym byte = "8 word"

definition READ_REQ :: byte where "READ_REQ = 0x0A"
definition START_WRITE :: byte where "START_WRITE = 0x0B"
definition END_WRITE :: byte where "END_WRITE = 0x0C"
definition ESCAPE :: byte where "ESCAPE = 0x0D"

lemmas protocol_constants = READ_REQ_def START_WRITE_def END_WRITE_def ESCAPE_def

subsection \<open>Errors\<close>

text \<open>
  \<^item> \<open>RangeError value name length signed\<close>: the ValueError of write\_regs, whose message
    holds the value, the register name, the bit length and the word signed or unsigned;
  \<^item> \<open>IntError s\<close>: the ValueError of \<^verbatim>\<open>int(s, 2)\<close>;
  \<^item> \<open>KeyError name\<close>: a dict lookup of an absent key;
  \<^item> \<open>ReceiveError received expected\<close>: the IOError of read\_regs;
  \<^item> \<open>WriteError written total\<close>: the IOError of write\_regs;
  \<^item> \<open>Exit code\<close>: \<^verbatim>\<open>exit(1)\<close> after a read timeout;
  \<^item> \<open>ParserError name\<close>: \<^verbatim>\<open>parser.error\<close> of the command line for a name that is
    not an out register.
\<close>

datatype error =
    RangeError int string nat bool
  | IntError string
  | KeyError string
  | ReceiveError nat nat
  | WriteError nat nat
  | Exit nat
  | ParserError string

subsection \<open>Binary strings: format and int\<close>

definition bit_char :: "nat \<Rightarrow> char" where
  "bit_char d = (if d = 0 then CHR ''0'' else CHR ''1'')"

text \<open>The digits of \<^verbatim>\<open>format(n, 'b')\<close> for \<open>n \<ge> 0\<close>.\<close>

fun bin :: "nat \<Rightarrow> string" where
  "bin n = (if n < 2 then [bit_char n] else bin (n div 2) @ [bit_char (n mod 2)])"

declare bin.simps [simp del]

text \<open>\<^verbatim>\<open>f"{n:0{w}b}"\<close> for \<open>n \<ge> 0\<close>: zero padding on the left up to width \<open>w\<close>,
  never a truncation.\<close>

definition format_0b :: "nat \<Rightarrow> nat \<Rightarrow> string" where
  "format_0b w n = replicate (w - length (bin n)) (CHR ''0'') @ bin n"

definition binary :: "string \<Rightarrow> bool" where
  "binary s \<longleftrightarrow> list_all (\<lambda>c. c = CHR ''0'' \<or> c = CHR ''1'') s"

text \<open>
  \<^verbatim>\<open>int(s, 2)\<close> on the strings this program builds (digits 0 and 1 only): the
  empty string and any other character raise ValueError, here \<open>None\<close>.
\<close>

definition digits_value :: "string \<Rightarrow> nat" where
  "digits_value s = foldl (\<lambda>acc c. 2 * acc + (if c = CHR ''1'' then 1 else 0)) 0 s"

definition int2 :: "string \<Rightarrow> nat option" where
  "int2 s = (if s = [] \<or> \<not> binary s then None else Some (digits_value s))"

subsection \<open>write\_regs: building the bit string\<close>

text \<open>
  The body of the loop over \<^verbatim>\<open>reversed(registers)\<close> in write\_regs:
  lookup, range check, and the string \<^verbatim>\<open>value_bits\<close>. \<^verbatim>\<open>1 << k\<close> is
  \<open>2 ^ k\<close>. The second format of \<open>value_bits\<close> is only reached with a value that
  passed the range check and is not a negative signed one, hence with \<open>0 \<le> v\<close>.
\<close>

definition value_bits :: "data_type \<Rightarrow> nat \<Rightarrow> int \<Rightarrow> string" where
  "value_bits ty len v =
     (if ty = Signed \<and> v < 0 then format_0b len (nat (v AND (2 ^ len - 1)))
      else format_0b len (nat v))"

fun build_bits :: "(string \<rightharpoonup> int) \<Rightarrow> register list \<Rightarrow> string \<Rightarrow> error + string" where
  "build_bits write_values [] write_data_bits = Inr write_data_bits"
| "build_bits write_values ((name, md, len, ty) # rs) write_data_bits =
     (if md = Out then
        (case write_values name of
           None \<Rightarrow> Inl (KeyError name)
         | Some v \<Rightarrow>
             if ty = Signed \<and> (v \<ge> 2 ^ (len - 1) \<or> v < - (2 ^ (len - 1)))
               then Inl (RangeError v name len True)
             else if ty \<noteq> Signed \<and> (v < 0 \<or> v \<ge> 2 ^ len)
               then Inl (RangeError v name len False)
             else
               build_bits write_values rs (write_data_bits @ value_bits ty len v))
      else build_bits write_values rs write_data_bits)"

definition pad8 :: "string \<Rightarrow> string" where
  "pad8 write_data_bits =
     write_data_bits @ replicate ((8 - length write_data_bits mod 8) mod 8) (CHR ''0'')"

text \<open>
  The loop \<^verbatim>\<open>for i in range(0, len(write_data_bits), 8)\<close>, in two passes:
  the byte values \<^verbatim>\<open>int(write_data_bits[i:i + 8], 2)\<close>, then the escaping of
  each value. A slice of at most eight digits is below 256, so
  \<^verbatim>\<open>bytearray.append\<close> takes it.
\<close>

function byte_values :: "string \<Rightarrow> error + byte list" where
  "byte_values bits =
     (if bits = [] then Inr []
      else case int2 (take 8 bits) of
             None \<Rightarrow> Inl (IntError (take 8 bits))
           | Some byte_value \<Rightarrow>
               (case byte_values (drop 8 bits) of
                  Inl e \<Rightarrow> Inl e
                | Inr bs \<Rightarrow> Inr (of_nat byte_value # bs)))"
  by pat_completeness auto
termination
  by (relation "measure length") auto

declare byte_values.simps [simp del]

definition escape_byte :: "byte \<Rightarrow> byte list" where
  "escape_byte byte_value =
     (if byte_value \<in> set [READ_REQ, START_WRITE, END_WRITE, ESCAPE]
      then [ESCAPE, byte_value] else [byte_value])"

definition frame :: "byte list \<Rightarrow> byte list" where
  "frame payload = START_WRITE # concat (map escape_byte payload) @ [END_WRITE]"

text \<open>The out region of write\_regs: bit string, padding, bytes.\<close>

definition pack_out :: "register list \<Rightarrow> (string \<rightharpoonup> int) \<Rightarrow> error + byte list" where
  "pack_out registers write_values =
     (case build_bits write_values (rev registers) [] of
        Inl e \<Rightarrow> Inl e
      | Inr write_data_bits \<Rightarrow> byte_values (pad8 write_data_bits))"

subsection \<open>read\_regs: the receive loop\<close>

text \<open>
  The \<^verbatim>\<open>while True\<close> loop of read\_regs over the bytes the port delivers;
  \<^verbatim>\<open>ser.read(1)\<close> returns nothing once they are used up (the one second
  timeout), and the script exits. The result holds the bytes not yet read.
\<close>

fun read_loop ::
  "byte option \<Rightarrow> bool \<Rightarrow> bool \<Rightarrow> byte list \<Rightarrow> byte list \<Rightarrow> (error + byte list) \<times> byte list" where
  "read_loop prev_byte receiving_data escape_next data [] = (Inl (Exit 1), [])"
| "read_loop prev_byte receiving_data escape_next data (byte # rest) =
     (if byte = START_WRITE \<and> prev_byte \<noteq> Some ESCAPE then
        read_loop (Some byte) True escape_next data rest
      else if receiving_data then
        (if byte = END_WRITE \<and> \<not> escape_next then (Inr data, rest)
         else if byte \<noteq> ESCAPE \<or> escape_next then
           read_loop (Some byte) receiving_data False (data @ [byte]) rest
         else if byte = ESCAPE then
           read_loop (Some byte) receiving_data True data rest
         else read_loop (Some byte) receiving_data escape_next data rest)
      else read_loop (Some byte) receiving_data escape_next data rest)"

text \<open>The loop from the initial values of read\_regs.\<close>

definition receive :: "byte list \<Rightarrow> (error + byte list) \<times> byte list" where
  "receive input = read_loop None True False [] input"

subsection \<open>read\_regs: extracting the register values\<close>

text \<open>
  The sum \<open>n\<close> of the bit lengths of the registers of one mode, and the padded region
  length \<^verbatim>\<open>math.ceil(n / 8) * 8\<close>. The code divides in floating point, which is exact for
  \<open>n < 2 ^ 53\<close>; the integer formula below is the code's value in that range, and the
  theorems on read\_regs assume it.
\<close>

definition sum_length :: "mode \<Rightarrow> register list \<Rightarrow> nat" where
  "sum_length m registers =
     sum_list (map (\<lambda>(name, md, len, ty). len)
       (filter (\<lambda>(name, md, len, ty). md = m) registers))"

definition regs_length :: "mode \<Rightarrow> register list \<Rightarrow> nat" where
  "regs_length m registers = (sum_length m registers + 7) div 8 * 8"

text \<open>The slice \<^verbatim>\<open>xs[-n:]\<close> for \<open>n \<ge> 0\<close>; \<^verbatim>\<open>xs[-0:]\<close> is all of \<open>xs\<close>.\<close>

definition last_n :: "nat \<Rightarrow> 'a list \<Rightarrow> 'a list" where
  "last_n n xs = (if n = 0 then xs else drop (length xs - n) xs)"

text \<open>\<^verbatim>\<open>f"{byte:08b}"\<close>\<close>

definition format_08b :: "byte \<Rightarrow> string" where
  "format_08b byte = format_0b 8 (unat byte)"

text \<open>
  \<^verbatim>\<open>value[start:end + 1]\<close>; read\_regs calls it with \<open>end = end_bit - 1\<close>,
  which is at least \<open>-1\<close>, so the stop index is never negative.
\<close>

definition extract_bits :: "string \<Rightarrow> nat \<Rightarrow> int \<Rightarrow> string" where
  "extract_bits v start end_idx = take (nat (end_idx + 1) - start) (drop start v)"

fun extract_loop ::
  "string \<Rightarrow> string \<Rightarrow> register list \<Rightarrow> nat \<Rightarrow> nat \<Rightarrow> (string \<rightharpoonup> int)
     \<Rightarrow> error + (string \<rightharpoonup> int)" where
  "extract_loop in_regs out_regs [] start_bit_in start_bit_out regs_values = Inr regs_values"
| "extract_loop in_regs out_regs ((name, md, len, ty) # rs) start_bit_in start_bit_out
     regs_values =
     (if md = In then
        (case int2 (extract_bits in_regs start_bit_in (int (start_bit_in + len) - 1)) of
           None \<Rightarrow>
             Inl (IntError (extract_bits in_regs start_bit_in (int (start_bit_in + len) - 1)))
         | Some n \<Rightarrow>
             extract_loop in_regs out_regs rs (start_bit_in + len) start_bit_out
               (regs_values(name \<mapsto> int n)))
      else
        (case int2 (extract_bits out_regs start_bit_out (int (start_bit_out + len) - 1)) of
           None \<Rightarrow>
             Inl (IntError (extract_bits out_regs start_bit_out (int (start_bit_out + len) - 1)))
         | Some n \<Rightarrow>
             extract_loop in_regs out_regs rs start_bit_in (start_bit_out + len)
               (regs_values(name \<mapsto> int n))))"

text \<open>The part of read\_regs after the length check: the two bit strings and the loop
  over \<^verbatim>\<open>reversed(registers)\<close>.\<close>

definition extract_regs :: "register list \<Rightarrow> byte list \<Rightarrow> error + (string \<rightharpoonup> int)" where
  "extract_regs registers data =
     extract_loop
       (last_n (regs_length In registers)
          (concat (map format_08b (last_n (regs_length In registers div 8) data))))
       (last_n (regs_length Out registers)
          (concat (map format_08b (take (regs_length Out registers div 8) data))))
       (rev registers) 0 0 Map.empty"

subsection \<open>print\_regs: the Int val column\<close>


subsection \<open>The serial port and the dict objects\<close>

text \<open>
  \<^item> \<open>sent\<close>: the bytes written to the port so far;
  \<^item> \<open>incoming\<close>: the bytes the device delivers to the next reads (none left: timeout);
  \<^item> \<open>accept\<close>: how many bytes one \<^verbatim>\<open>ser.write\<close> takes at most;
  \<^item> \<open>heap\<close>: the dict objects by reference, \<open>next_ref\<close> the next free reference.
  The debug printing is left out.
\<close>

record state =
  sent :: "byte list"
  incoming :: "byte list"
  accept :: nat
  heap :: "nat \<Rightarrow> (string \<rightharpoonup> int)"
  next_ref :: nat

definition ser_write :: "byte list \<Rightarrow> state \<Rightarrow> nat \<times> state" where
  "ser_write bs s = (min (accept s) (length bs), s\<lparr>sent := sent s @ take (accept s) bs\<rparr>)"

definition read_regs :: "register list \<Rightarrow> state \<Rightarrow> (error + (string \<rightharpoonup> int)) \<times> state" where
  "read_regs registers s =
     (case receive (incoming (snd (ser_write [READ_REQ] s))) of
        (Inl e, rest) \<Rightarrow> (Inl e, (snd (ser_write [READ_REQ] s))\<lparr>incoming := rest\<rparr>)
      | (Inr data, rest) \<Rightarrow>
          if length data \<noteq> (regs_length In registers + regs_length Out registers) div 8
          then (Inl (ReceiveError (length data)
                       ((regs_length In registers + regs_length Out registers) div 8)),
                (snd (ser_write [READ_REQ] s))\<lparr>incoming := rest\<rparr>)
          else (extract_regs registers data,
                (snd (ser_write [READ_REQ] s))\<lparr>incoming := rest\<rparr>))"

text \<open>The loop \<^verbatim>\<open>for name in missing_values\<close> of read\_back\_missing\_out\_regs, storing
  into the dict at reference \<open>complete_write_values\<close>.\<close>

fun fill_missing ::
  "string list \<Rightarrow> (string \<rightharpoonup> int) \<Rightarrow> nat \<Rightarrow> state \<Rightarrow> (error + unit) \<times> state" where
  "fill_missing [] current_values complete_write_values s = (Inr (), s)"
| "fill_missing (name # names) current_values complete_write_values s =
     (case current_values name of
        None \<Rightarrow> (Inl (KeyError name), s)
      | Some v \<Rightarrow>
          fill_missing names current_values complete_write_values
            (s\<lparr>heap := (heap s)(complete_write_values :=
                   (heap s complete_write_values)(name \<mapsto> v))\<rparr>))"

definition missing_values :: "register list \<Rightarrow> (string \<rightharpoonup> int) \<Rightarrow> string list" where
  "missing_values registers complete_write_values =
     map fst (filter (\<lambda>(name, md, len, ty). md = Out \<and> complete_write_values name = None)
       registers)"

text \<open>\<^verbatim>\<open>write_values.copy()\<close> allocates a new dict; the result is its reference.\<close>

definition read_back_missing_out_regs ::
  "register list \<Rightarrow> nat \<Rightarrow> state \<Rightarrow> (error + nat) \<times> state" where
  "read_back_missing_out_regs registers write_values s =
     (if missing_values registers (heap s write_values) \<noteq> [] then
        (case read_regs registers
                (s\<lparr>heap := (heap s)(next_ref s := heap s write_values),
                   next_ref := Suc (next_ref s)\<rparr>) of
           (Inl e, s2) \<Rightarrow> (Inl e, s2)
         | (Inr current_values, s2) \<Rightarrow>
             (case fill_missing (missing_values registers (heap s write_values))
                     current_values (next_ref s) s2 of
                (Inl e, s3) \<Rightarrow> (Inl e, s3)
              | (Inr u, s3) \<Rightarrow> (Inr (next_ref s), s3)))
      else (Inr (next_ref s),
            s\<lparr>heap := (heap s)(next_ref s := heap s write_values),
              next_ref := Suc (next_ref s)\<rparr>))"

definition write_regs :: "register list \<Rightarrow> nat \<Rightarrow> state \<Rightarrow> (error + unit) \<times> state" where
  "write_regs registers write_values s =
     (case read_back_missing_out_regs registers write_values s of
        (Inl e, s1) \<Rightarrow> (Inl e, s1)
      | (Inr complete_write_values, s1) \<Rightarrow>
          (case pack_out registers (heap s1 complete_write_values) of
             Inl e \<Rightarrow> (Inl e, s1)
           | Inr bs \<Rightarrow>
               if fst (ser_write (frame bs) s1) \<noteq> length (frame bs)
               then (Inl (WriteError (fst (ser_write (frame bs) s1)) (length (frame bs))),
                     snd (ser_write (frame bs) s1))
               else (Inr (), snd (ser_write (frame bs) s1))))"

subsection \<open>The command line: WriteAction\<close>

text \<open>
  The script's command line, not write\_regs, checks the names: WriteAction builds the list
  \<^verbatim>\<open>out_register_names\<close> and, in the loop over the keys of the parsed dict, calls
  \<^verbatim>\<open>parser.error\<close> at the first key that is not in it. This runs while the arguments
  are parsed, before the UartRegs object and its serial port exist.
\<close>

definition out_register_names :: "register list \<Rightarrow> string list" where
  "out_register_names registers =
     map fst (filter (\<lambda>(name, md, len, ty). md = Out) registers)"

fun validate_names :: "register list \<Rightarrow> string list \<Rightarrow> error + unit" where
  "validate_names registers [] = Inr ()"
| "validate_names registers (name # names) =
     (if name \<notin> set (out_register_names registers) then Inl (ParserError name)
      else validate_names registers names)"

subsection \<open>Representable values\<close>

text \<open>The range of a register as the specification words it, and the two conditions on
  a value dict: it has every out register, and every out register's value is in range.\<close>

definition representable :: "data_type \<Rightarrow> nat \<Rightarrow> int \<Rightarrow> bool" where
  "representable ty len v =
     (if ty = Signed then - (2 ^ (len - 1)) \<le> v \<and> v < 2 ^ (len - 1)
      else 0 \<le> v \<and> v < 2 ^ len)"

definition complete_for :: "register list \<Rightarrow> (string \<rightharpoonup> int) \<Rightarrow> bool" where
  "complete_for registers write_values \<longleftrightarrow>
     list_all (\<lambda>(name, md, len, ty). md = Out \<longrightarrow> write_values name \<noteq> None) registers"

definition all_representable :: "register list \<Rightarrow> (string \<rightharpoonup> int) \<Rightarrow> bool" where
  "all_representable registers write_values \<longleftrightarrow>
     list_all (\<lambda>(name, md, len, ty). md = Out \<longrightarrow>
        (case write_values name of None \<Rightarrow> False | Some v \<Rightarrow> representable ty len v))
       registers"

section \<open>Properties\<close>

subsection \<open>Binary strings\<close>

lemma binary_Nil [simp]: "binary []"
  by (simp add: binary_def)

lemma binary_append [simp]: "binary (a @ b) \<longleftrightarrow> binary a \<and> binary b"
  by (simp add: binary_def)

lemma binary_Cons [simp]: "binary (c # s) \<longleftrightarrow> (c = CHR ''0'' \<or> c = CHR ''1'') \<and> binary s"
  by (simp add: binary_def)

lemma binary_replicate_zero [simp]: "binary (replicate k (CHR ''0''))"
  by (induction k) simp_all

lemma binary_take: "binary s \<Longrightarrow> binary (take k s)"
  by (auto simp: binary_def list_all_iff dest: in_set_takeD)

lemma binary_drop: "binary s \<Longrightarrow> binary (drop k s)"
  by (auto simp: binary_def list_all_iff dest: in_set_dropD)

lemma binary_bin [simp]: "binary (bin n)"
proof (induction n rule: bin.induct)
  case (1 n)
  then show ?case by (subst bin.simps) (simp add: bit_char_def)
qed

lemma binary_format_0b [simp]: "binary (format_0b w n)"
  by (simp add: format_0b_def)

lemma binary_value_bits [simp]: "binary (value_bits ty len v)"
  by (simp add: value_bits_def)

lemma build_bits_binary:
  "build_bits wv rs acc = Inr bits \<Longrightarrow> binary acc \<Longrightarrow> binary bits"
proof (induction rs arbitrary: acc)
  case Nil
  then show ?case by simp
next
  case (Cons r rs)
  obtain name md len ty where r: "r = (name, md, len, ty)" by (cases r) auto
  show ?case
  proof (cases "md = Out")
    case False
    with Cons r show ?thesis by simp
  next
    case True
    with Cons.prems r obtain acc' where "build_bits wv rs acc' = Inr bits" "binary acc'"
      by (auto split: option.splits if_splits)
    then show ?thesis by (rule Cons.IH)
  qed
qed

lemma byte_values_binary: "binary bits \<Longrightarrow> \<exists>bs. byte_values bits = Inr bs"
proof (induction bits rule: byte_values.induct)
  case (1 bits)
  show ?case
  proof (cases "bits = []")
    case True
    then show ?thesis by (simp add: byte_values.simps)
  next
    case False
    from "1.prems" have bt: "binary (take 8 bits)" and bd: "binary (drop 8 bits)"
      by (simp_all add: binary_take binary_drop)
    from False bt have i: "int2 (take 8 bits) = Some (digits_value (take 8 bits))"
      by (simp add: int2_def)
    from "1.IH" [OF False i bd] obtain bs where "byte_values (drop 8 bits) = Inr bs" ..
    with False i show ?thesis by (subst byte_values.simps) simp
  qed
qed

lemma complete_for_rev [simp]: "complete_for (rev rs) wv = complete_for rs wv"
  by (simp add: complete_for_def)

lemma all_representable_rev [simp]: "all_representable (rev rs) wv = all_representable rs wv"
  by (simp add: all_representable_def)

subsection \<open>The range check of write\_regs\<close>

lemma build_bits_ok_iff:
  "complete_for rs wv \<Longrightarrow>
   (\<exists>bits. build_bits wv rs acc = Inr bits) \<longleftrightarrow> all_representable rs wv"
proof (induction rs arbitrary: acc)
  case Nil
  then show ?case by (simp add: all_representable_def)
next
  case (Cons r rs)
  obtain name md len ty where r: "r = (name, md, len, ty)" by (cases r) auto
  from Cons.prems have c: "complete_for rs wv" by (simp add: complete_for_def)
  show ?case
  proof (cases "md = Out")
    case False
    with Cons.IH [OF c] r show ?thesis by (simp add: all_representable_def)
  next
    case True
    with Cons.prems r obtain v where v: "wv name = Some v" by (auto simp: complete_for_def)
    show ?thesis
    proof (cases "representable ty len v")
      case False
      with True r v show ?thesis
        by (auto simp: all_representable_def representable_def split: if_splits)
    next
      case rep: True
      with True r v Cons.IH [OF c] show ?thesis
        by (auto simp: all_representable_def representable_def split: if_splits)
    qed
  qed
qed

lemma build_bits_error:
  "build_bits wv rs acc = Inl e \<Longrightarrow> complete_for rs wv \<Longrightarrow>
   \<exists>name len ty v. e = RangeError v name len (ty = Signed) \<and> (name, Out, len, ty) \<in> set rs \<and>
      wv name = Some v \<and> \<not> representable ty len v"
proof (induction rs arbitrary: acc)
  case Nil
  then show ?case by simp
next
  case (Cons r rs)
  obtain name md len ty where r: "r = (name, md, len, ty)" by (cases r) auto
  from Cons.prems have c: "complete_for rs wv" by (simp add: complete_for_def)
  show ?case
  proof (cases "md = Out")
    case False
    with Cons.prems r have "build_bits wv rs acc = Inl e" by simp
    from Cons.IH [OF this c] show ?thesis by auto
  next
    case True
    with Cons.prems r obtain v where v: "wv name = Some v" by (auto simp: complete_for_def)
    show ?thesis
    proof (cases "representable ty len v")
      case False
      with True r v Cons.prems(1) have "e = RangeError v name len (ty = Signed)"
        by (auto simp: representable_def split: if_splits)
      with False True r v show ?thesis by auto
    next
      case rep: True
      with True r v Cons.prems(1) obtain acc' where "build_bits wv rs acc' = Inl e"
        by (auto simp: representable_def split: if_splits)
      from Cons.IH [OF this c] show ?thesis by auto
    qed
  qed
qed

subsection \<open>The frame codec\<close>

lemma read_loop_payload:
  "\<not> escape_next \<Longrightarrow>
   read_loop prev_byte True escape_next data
     (concat (map escape_byte payload) @ END_WRITE # rest) = (Inr (data @ payload), rest)"
proof (induction payload arbitrary: prev_byte data)
  case Nil
  then show ?case by (simp add: protocol_constants)
next
  case (Cons b bs)
  then show ?case by (simp add: escape_byte_def protocol_constants)
qed

text \<open>
  Claim C2. Whatever the payload bytes are, control values included, the receive loop of
  read\_regs, started from its initial values on the bytes write\_regs frames for that
  payload (START\_WRITE, the payload with an ESCAPE before each control value,
  END\_WRITE), returns exactly the payload and leaves the bytes after the frame unread.
\<close>

theorem receive_frame: "receive (frame payload @ rest) = (Inr payload, rest)"
  using read_loop_payload [of False "Some START_WRITE" "[]" payload rest]
  by (simp add: receive_def frame_def)

text \<open>
  Claim C5, as the code has it. A START\_WRITE whose previous byte is not ESCAPE is
  consumed without entering the payload and sets \<^verbatim>\<open>receiving_data\<close>, but the
  bytes accumulated so far stay: the payload returned for a frame that follows is the
  accumulated bytes followed by the frame's payload. So START\_WRITE, START\_WRITE, 1,
  END\_WRITE gives [1].
\<close>

theorem start_write_keeps_data:
  "(prev_byte \<noteq> Some ESCAPE \<longrightarrow>
      read_loop prev_byte receiving_data escape_next data (START_WRITE # rest) =
      read_loop (Some START_WRITE) True escape_next data rest) \<and>
   (prev_byte \<noteq> Some ESCAPE \<and> \<not> escape_next \<longrightarrow>
      read_loop prev_byte receiving_data escape_next data (frame payload @ rest) =
      (Inr (data @ payload), rest)) \<and>
   receive [START_WRITE, START_WRITE, 0x01, END_WRITE] = (Inr [0x01], [])"
proof (intro conjI impI)
  assume "prev_byte \<noteq> Some ESCAPE"
  then show "read_loop prev_byte receiving_data escape_next data (START_WRITE # rest) =
      read_loop (Some START_WRITE) True escape_next data rest"
    by simp
next
  assume "prev_byte \<noteq> Some ESCAPE \<and> \<not> escape_next"
  then show "read_loop prev_byte receiving_data escape_next data (frame payload @ rest) =
      (Inr (data @ payload), rest)"
    using read_loop_payload [of escape_next "Some START_WRITE" data payload rest]
    by (simp add: frame_def)
next
  show "receive [START_WRITE, START_WRITE, 0x01, END_WRITE] = (Inr [0x01], [])"
    by (simp add: receive_def protocol_constants)
qed

theorem start_write_keeps_data_witness:
  "Some (0x05 :: byte) \<noteq> Some ESCAPE \<and>
   read_loop (Some 0x05) True False [0x05] (START_WRITE # [0x01, END_WRITE]) =
     (Inr [0x05, 0x01], []) \<and>
   read_loop (Some 0x05) True False [0x05] (frame [0x01] @ [0x01, END_WRITE]) =
     (Inr [0x05, 0x01], [0x01, END_WRITE])"
  using start_write_keeps_data [of "Some 0x05" True False "[0x05]" "[0x01, END_WRITE]" "[0x01]"]
  by (simp add: protocol_constants)

text \<open>
  Claim C5 as stated fails: START\_WRITE, 5, START\_WRITE, 1, END\_WRITE gives the payload
  [5, 1], since the second START\_WRITE does not empty \<^verbatim>\<open>data\<close>.
\<close>

theorem start_write_clears_counterexample:
  "receive [START_WRITE, 0x05, START_WRITE, 0x01, END_WRITE] = (Inr [0x05, 0x01], []) \<and>
   receive [START_WRITE, 0x05, START_WRITE, 0x01, END_WRITE] \<noteq> (Inr [0x01], [])"
  by (simp add: receive_def protocol_constants)

text \<open>
  Claim C6 on the code. \<^verbatim>\<open>receiving_data\<close> starts as True, so the loop
  captures from its first byte: a byte before the first START\_WRITE enters the payload,
  and an END\_WRITE before any START\_WRITE ends the frame with an empty payload.
\<close>

theorem receive_before_start:
  "receive [0x05, START_WRITE, 0x01, END_WRITE] = (Inr [0x05, 0x01], []) \<and>
   receive [END_WRITE, START_WRITE, 0x01, END_WRITE] = (Inr [], [START_WRITE, 0x01, END_WRITE])"
  by (simp add: receive_def protocol_constants)

subsection \<open>Packing the out region\<close>

lemma example_build_bits:
  "build_bits [''a'' \<mapsto> 1, ''b'' \<mapsto> 255]
     (rev [(''a'', Out, 1, Std_logic), (''b'', Out, 8, Std_logic_vector)]) [] =
   Inr ''111111111''"
  by code_simp

lemma example_pad8: "pad8 ''111111111'' = ''1111111110000000''"
  by code_simp

lemma example_byte_values: "byte_values ''1111111110000000'' = Inr [0xFF, 0x80]"
  by code_simp

lemma pack_out_ok_iff:
  assumes c: "complete_for registers write_values"
  shows "(\<exists>bs. pack_out registers write_values = Inr bs) \<longleftrightarrow>
         all_representable registers write_values"
proof
  from c have c': "complete_for (rev registers) write_values" by simp
  {
    assume "\<exists>bs. pack_out registers write_values = Inr bs"
    then obtain bits where "build_bits write_values (rev registers) [] = Inr bits"
      by (auto simp: pack_out_def split: sum.splits)
    with build_bits_ok_iff [OF c', of "[]"] show "all_representable registers write_values"
      by auto
  next
    assume "all_representable registers write_values"
    with build_bits_ok_iff [OF c', of "[]"] obtain bits
      where b: "build_bits write_values (rev registers) [] = Inr bits" by auto
    from build_bits_binary [OF b] have "binary (pad8 bits)" by (simp add: pad8_def)
    from byte_values_binary [OF this] b
    show "\<exists>bs. pack_out registers write_values = Inr bs" by (simp add: pack_out_def)
  }
qed

lemma pack_out_error:
  assumes c: "complete_for registers write_values"
    and e: "pack_out registers write_values = Inl e"
  shows "\<exists>name len ty v. e = RangeError v name len (ty = Signed) \<and>
           (name, Out, len, ty) \<in> set registers \<and> write_values name = Some v \<and>
           \<not> representable ty len v"
proof -
  from c have c': "complete_for (rev registers) write_values" by simp
  have "build_bits write_values (rev registers) [] = Inl e"
  proof (cases "build_bits write_values (rev registers) []")
    case (Inl a)
    with e show ?thesis by (simp add: pack_out_def)
  next
    case (Inr bits)
    from build_bits_binary [OF Inr] have "binary (pad8 bits)" by (simp add: pad8_def)
    from byte_values_binary [OF this] Inr e show ?thesis by (auto simp: pack_out_def)
  qed
  from build_bits_error [OF this c'] show ?thesis by auto
qed

lemma example_unsigned_16:
  "pack_out [(''u'', Out, 4, Unsigned)] [''u'' \<mapsto> 16] = Inl (RangeError 16 ''u'' 4 False)"
  by code_simp

lemma example_signed_8:
  "pack_out [(''s'', Out, 4, Signed)] [''s'' \<mapsto> 8] = Inl (RangeError 8 ''s'' 4 True)"
  by code_simp

lemma example_signed_minus_9:
  "pack_out [(''s'', Out, 4, Signed)] [''s'' \<mapsto> - 9] = Inl (RangeError (- 9) ''s'' 4 True)"
  by code_simp

lemma example_unsigned_15: "pack_out [(''u'', Out, 4, Unsigned)] [''u'' \<mapsto> 15] = Inr [0xF0]"
  by code_simp

lemma example_signed_7: "pack_out [(''s'', Out, 4, Signed)] [''s'' \<mapsto> 7] = Inr [0x70]"
  by code_simp

lemma example_signed_minus_8: "pack_out [(''s'', Out, 4, Signed)] [''s'' \<mapsto> - 8] = Inr [0x80]"
  by code_simp

text \<open>
  Claim C7. For a value dict that has every out register, the packing of write\_regs
  succeeds exactly when every out register's value is in its range (unsigned and the two
  logic types: \<open>0 \<le> v < 2 ^ len\<close>; signed: \<open>- 2 ^ (len - 1) \<le> v < 2 ^ (len - 1)\<close>), and
  otherwise fails with the range ValueError, which carries the value, the name and the bit
  length of a register of the schema whose value is out of range. A 4-bit unsigned
  register given 16 fails, a 4-bit signed one given 8 or -9 fails, and 15, 7 and -8 are
  accepted.
\<close>

theorem pack_out_range:
  "(complete_for registers write_values \<longrightarrow>
     ((\<exists>bs. pack_out registers write_values = Inr bs) \<longleftrightarrow>
        all_representable registers write_values) \<and>
     (\<forall>e. pack_out registers write_values = Inl e \<longrightarrow>
        (\<exists>name len ty v. e = RangeError v name len (ty = Signed) \<and>
           (name, Out, len, ty) \<in> set registers \<and> write_values name = Some v \<and>
           \<not> representable ty len v))) \<and>
   pack_out [(''u'', Out, 4, Unsigned)] [''u'' \<mapsto> 16] = Inl (RangeError 16 ''u'' 4 False) \<and>
   pack_out [(''s'', Out, 4, Signed)] [''s'' \<mapsto> 8] = Inl (RangeError 8 ''s'' 4 True) \<and>
   pack_out [(''s'', Out, 4, Signed)] [''s'' \<mapsto> - 9] = Inl (RangeError (- 9) ''s'' 4 True) \<and>
   pack_out [(''u'', Out, 4, Unsigned)] [''u'' \<mapsto> 15] = Inr [0xF0] \<and>
   pack_out [(''s'', Out, 4, Signed)] [''s'' \<mapsto> 7] = Inr [0x70] \<and>
   pack_out [(''s'', Out, 4, Signed)] [''s'' \<mapsto> - 8] = Inr [0x80]"
proof (intro conjI impI allI)
  assume "complete_for registers write_values"
  then show "(\<exists>bs. pack_out registers write_values = Inr bs) \<longleftrightarrow>
        all_representable registers write_values"
    by (rule pack_out_ok_iff)
next
  fix e
  assume "complete_for registers write_values" and "pack_out registers write_values = Inl e"
  then show "\<exists>name len ty v. e = RangeError v name len (ty = Signed) \<and>
           (name, Out, len, ty) \<in> set registers \<and> write_values name = Some v \<and>
           \<not> representable ty len v"
    by (rule pack_out_error)
qed (fact example_unsigned_16 example_signed_8 example_signed_minus_9
       example_unsigned_15 example_signed_7 example_signed_minus_8)+

theorem pack_out_range_witness:
  "complete_for [(''u'', Out, 4, Unsigned)] [''u'' \<mapsto> 16] \<and>
   \<not> all_representable [(''u'', Out, 4, Unsigned)] [''u'' \<mapsto> 16] \<and>
   \<not> (\<exists>bs. pack_out [(''u'', Out, 4, Unsigned)] [''u'' \<mapsto> 16] = Inr bs)"
proof -
  have c: "complete_for [(''u'', Out, 4, Unsigned)] [''u'' \<mapsto> 16]"
    by (simp add: complete_for_def)
  have n: "\<not> all_representable [(''u'', Out, 4, Unsigned)] [''u'' \<mapsto> 16]"
    by (simp add: all_representable_def representable_def)
  note pack_out_range [of "[(''u'', Out, 4, Unsigned)]" "[''u'' \<mapsto> 16]",
      THEN conjunct1, THEN mp, OF c, THEN conjunct1]
  with c n show ?thesis by simp
qed

subsection \<open>Digits and their value\<close>

lemma digits_value_Nil [simp]: "digits_value [] = 0"
  by (simp add: digits_value_def)

lemma digits_value_snoc [simp]:
  "digits_value (s @ [c]) = 2 * digits_value s + (if c = CHR ''1'' then 1 else 0)"
  by (simp add: digits_value_def)

lemma digits_value_append:
  "digits_value (a @ b) = digits_value a * 2 ^ length b + digits_value b"
proof (induction b rule: rev_induct)
  case Nil
  then show ?case by simp
next
  case (snoc c b)
  have "digits_value (a @ b @ [c]) = digits_value ((a @ b) @ [c])" by simp
  also have "\<dots> = 2 * digits_value (a @ b) + (if c = CHR ''1'' then 1 else 0)"
    by (rule digits_value_snoc)
  finally show ?case using snoc by (simp add: algebra_simps)
qed

lemma digits_value_replicate_zero [simp]: "digits_value (replicate k (CHR ''0'')) = 0"
  by (induction k) (simp_all add: digits_value_def)

lemma digits_value_bin [simp]: "digits_value (bin n) = n"
proof (induction n rule: bin.induct)
  case (1 n)
  show ?case
  proof (cases "n < 2")
    case True
    then have "n = 0 \<or> n = 1" by auto
    then show ?thesis
      by (subst bin.simps) (auto simp: bit_char_def digits_value_def)
  next
    case False
    with 1 have "digits_value (bin (n div 2)) = n div 2" by simp
    with False show ?thesis
      by (subst bin.simps) (simp add: bit_char_def, arith)
  qed
qed

lemma digits_value_format_0b [simp]: "digits_value (format_0b w n) = n"
  by (simp add: format_0b_def digits_value_append)

lemma bin_not_Nil [simp]: "bin n \<noteq> []"
  by (subst bin.simps) simp

lemma length_bin_le: "n < 2 ^ w \<Longrightarrow> 0 < w \<Longrightarrow> length (bin n) \<le> w"
proof (induction n arbitrary: w rule: bin.induct)
  case (1 n)
  show ?case
  proof (cases "n < 2")
    case True
    with "1.prems" show ?thesis by (subst bin.simps) simp
  next
    case False
    from "1.prems" obtain w' where w: "w = Suc w'" by (cases w) auto
    with False "1.prems" have "0 < w'" by (cases w') auto
    moreover from "1.prems" w have "n div 2 < 2 ^ w'" by auto
    ultimately have "length (bin (n div 2)) \<le> w'" using "1.IH" False by simp
    with False w show ?thesis by (subst bin.simps) simp
  qed
qed

lemma length_format_0b: "n < 2 ^ w \<Longrightarrow> 0 < w \<Longrightarrow> length (format_0b w n) = w"
  using length_bin_le [of n w] by (simp add: format_0b_def)

lemma digits_value_less: "digits_value s < 2 ^ length s"
proof (induction s rule: rev_induct)
  case Nil
  then show ?case by simp
next
  case (snoc c s)
  then show ?case by simp
qed

lemma digits_value_inject:
  "length a = length b \<Longrightarrow> binary a \<Longrightarrow> binary b \<Longrightarrow> digits_value a = digits_value b \<Longrightarrow> a = b"
proof (induction a arbitrary: b rule: rev_induct)
  case Nil
  then show ?case by simp
next
  case (snoc c a)
  from snoc.prems(1) obtain d b' where b: "b = b' @ [d]"
    by (cases b rule: rev_cases) auto
  from snoc.prems b have len: "length a = length b'" and ba: "binary a" and bb: "binary b'"
    and c: "c = CHR ''0'' \<or> c = CHR ''1''" and d: "d = CHR ''0'' \<or> d = CHR ''1''"
    by simp_all
  define cv :: nat where "cv = (if c = CHR ''1'' then 1 else 0)"
  define dv :: nat where "dv = (if d = CHR ''1'' then 1 else 0)"
  have bounds: "cv \<le> 1" "dv \<le> 1" by (simp_all add: cv_def dv_def)
  from snoc.prems(4) b have eq: "2 * digits_value a + cv = 2 * digits_value b' + dv"
    by (simp add: cv_def dv_def)
  with bounds have v: "digits_value a = digits_value b'" and cd: "cv = dv" by arith+
  from snoc.IH [OF len ba bb v] have "a = b'" .
  moreover from cd c d have "c = d" by (auto simp: cv_def dv_def split: if_splits)
  ultimately show ?case using b by simp
qed

lemma format_0b_digits_value:
  "binary s \<Longrightarrow> s \<noteq> [] \<Longrightarrow> format_0b (length s) (digits_value s) = s"
  by (rule digits_value_inject)
     (simp_all add: length_format_0b digits_value_less)

lemma int_and_mask: "(v::int) AND (2 ^ len - 1) = v mod 2 ^ len"
  by (simp flip: mask_eq_exp_minus_1 take_bit_eq_mask add: take_bit_eq_mod)

subsection \<open>Bytes and bit strings\<close>

lemma length_format_08b [simp]: "length (format_08b b) = 8"
proof -
  have "unat b < 2 ^ 8" using unsigned_less [of b] by simp
  then show ?thesis by (simp add: format_08b_def length_format_0b)
qed

lemma binary_format_08b [simp]: "binary (format_08b b)"
  by (simp add: format_08b_def)

lemma format_08b_of_nat:
  assumes "binary s" "length s = 8"
  shows "format_08b (of_nat (digits_value s)) = s"
proof -
  have "digits_value s < 2 ^ 8" using digits_value_less [of s] assms by simp
  then have "unat (of_nat (digits_value s) :: byte) = digits_value s"
    by (simp add: unat_of_nat)
  moreover from assms have "s \<noteq> []" by auto
  ultimately show ?thesis
    using format_0b_digits_value [of s] assms by (simp add: format_08b_def)
qed

lemma byte_values_format:
  "binary bits \<Longrightarrow> 8 dvd length bits \<Longrightarrow> byte_values bits = Inr bs \<Longrightarrow>
   concat (map format_08b bs) = bits"
proof (induction bits arbitrary: bs rule: byte_values.induct)
  case (1 bits)
  show ?case
  proof (cases "bits = []")
    case True
    with "1.prems" show ?thesis by (simp add: byte_values.simps)
  next
    case False
    from "1.prems"(2) False have len: "8 \<le> length bits" by (simp add: dvd_imp_le)
    then have l8: "length (take 8 bits) = 8" by simp
    from "1.prems"(1) have bt: "binary (take 8 bits)" and bd: "binary (drop 8 bits)"
      by (simp_all add: binary_take binary_drop)
    from l8 bt have i: "int2 (take 8 bits) = Some (digits_value (take 8 bits))"
      by (auto simp: int2_def)
    from "1.prems"(2) len have dv: "8 dvd length (drop 8 bits)" by simp
    from byte_values_binary [OF bd] obtain bs' where bs': "byte_values (drop 8 bits) = Inr bs'" ..
    from "1.prems"(3) False i bs'
    have bs: "bs = of_nat (digits_value (take 8 bits)) # bs'"
      by (subst (asm) byte_values.simps) simp
    from "1.IH" [OF False i bd dv bs'] have "concat (map format_08b bs') = drop 8 bits" .
    with bs format_08b_of_nat [OF bt l8] show ?thesis
      by simp
  qed
qed

lemma length_byte_values:
  "byte_values bits = Inr bs \<Longrightarrow> 8 dvd length bits \<Longrightarrow> length bits = 8 * length bs"
proof (induction bits arbitrary: bs rule: byte_values.induct)
  case (1 bits)
  show ?case
  proof (cases "bits = []")
    case True
    with "1.prems" show ?thesis by (simp add: byte_values.simps)
  next
    case False
    from "1.prems"(2) False have len: "8 \<le> length bits" by (simp add: dvd_imp_le)
    from "1.prems"(1) False obtain n bs' where i: "int2 (take 8 bits) = Some n"
      and bs': "byte_values (drop 8 bits) = Inr bs'" and bs: "bs = of_nat n # bs'"
      by (subst (asm) byte_values.simps) (auto split: option.splits sum.splits)
    from "1.prems"(2) len have dv: "8 dvd length (drop 8 bits)" by simp
    from "1.IH" [OF False i bs' dv] len bs show ?thesis by simp
  qed
qed

subsection \<open>The extraction loop of read\_regs\<close>

lemma extract_bits_slice [simp]:
  "extract_bits v start (int start + int len - 1) = take len (drop start v)"
  by (simp add: extract_bits_def nat_int_add)

lemma sum_length_Nil [simp]: "sum_length m [] = 0"
  by (simp add: sum_length_def)

lemma sum_length_Cons [simp]:
  "sum_length m ((name, md, len, ty) # rs) = (if md = m then len else 0) + sum_length m rs"
  by (simp add: sum_length_def)

lemma sum_length_rev [simp]: "sum_length m (rev rs) = sum_length m rs"
  by (simp add: sum_length_def rev_filter [symmetric] rev_map [symmetric])

lemma int2_binary: "binary s \<Longrightarrow> s \<noteq> [] \<Longrightarrow> int2 s = Some (digits_value s)"
  by (simp add: int2_def)

lemma extract_loop_out:
  assumes "binary in_regs"
    and "list_all (\<lambda>(name, md, len, ty). 0 < len) rs"
    and "distinct (map fst rs)"
    and "start_bit_in + sum_length In rs \<le> length in_regs"
    and "out_regs = pre @ concat (map f (filter (\<lambda>r. fst (snd r) = Out) rs)) @ suf"
    and "start_bit_out = length pre"
    and "\<forall>(name, md, len, ty) \<in> set rs. md = Out \<longrightarrow>
           binary (f (name, md, len, ty)) \<and> length (f (name, md, len, ty)) = len"
  shows "\<exists>m'. extract_loop in_regs out_regs rs start_bit_in start_bit_out m = Inr m' \<and>
           (\<forall>n. n \<notin> fst ` set rs \<longrightarrow> m' n = m n) \<and>
           (\<forall>(name, md, len, ty) \<in> set rs. md = Out \<longrightarrow>
              m' name = Some (int (digits_value (f (name, md, len, ty)))))"
  using assms
proof (induction rs arbitrary: pre start_bit_in start_bit_out m)
  case Nil
  then show ?case by simp
next
  case (Cons r rs)
  obtain name md len ty where r: "r = (name, md, len, ty)" by (cases r) auto
  from Cons.prems(2) r have len: "0 < len" and lens: "list_all (\<lambda>(name, md, len, ty). 0 < len) rs"
    by simp_all
  from Cons.prems(3) r have fresh: "name \<notin> fst ` set rs" and dist: "distinct (map fst rs)"
    by simp_all
  from Cons.prems(7) have f: "\<forall>(name, md, len, ty) \<in> set rs. md = Out \<longrightarrow>
           binary (f (name, md, len, ty)) \<and> length (f (name, md, len, ty)) = len"
    by simp
  show ?case
  proof (cases md)
    case In
    let ?s = "take len (drop start_bit_in in_regs)"
    from Cons.prems(4) r In have bound: "start_bit_in + len + sum_length In rs \<le> length in_regs"
      by simp
    with len have "length ?s = len" by simp
    with len have ne: "?s \<noteq> []" by auto
    from Cons.prems(1) have "binary ?s" by (simp add: binary_take binary_drop)
    with ne have i: "int2 ?s = Some (digits_value ?s)" by (simp add: int2_binary)
    from Cons.prems(5) r In
    have out: "out_regs = pre @ concat (map f (filter (\<lambda>r. fst (snd r) = Out) rs)) @ suf"
      by simp
    from Cons.IH [OF Cons.prems(1) lens dist bound out Cons.prems(6) f,
        of "m(name \<mapsto> int (digits_value ?s))"]
    obtain m' where m': "extract_loop in_regs out_regs rs (start_bit_in + len) start_bit_out
          (m(name \<mapsto> int (digits_value ?s))) = Inr m'"
      and keep: "\<forall>n. n \<notin> fst ` set rs \<longrightarrow> m' n = (m(name \<mapsto> int (digits_value ?s))) n"
      and vals: "\<forall>(name, md, len, ty) \<in> set rs. md = Out \<longrightarrow>
              m' name = Some (int (digits_value (f (name, md, len, ty))))"
      by blast
    from m' i r In have "extract_loop in_regs out_regs (r # rs) start_bit_in start_bit_out m = Inr m'"
      by simp
    moreover from keep r have "\<forall>n. n \<notin> fst ` set (r # rs) \<longrightarrow> m' n = m n" by simp
    moreover from vals r In have "\<forall>(name, md, len, ty) \<in> set (r # rs). md = Out \<longrightarrow>
              m' name = Some (int (digits_value (f (name, md, len, ty))))" by simp
    ultimately show ?thesis by blast
  next
    case Out
    let ?s = "f (name, md, len, ty)"
    from Cons.prems(7) r Out have bs: "binary ?s" and ls: "length ?s = len" by simp_all
    from ls len have ne: "?s \<noteq> []" by auto
    from bs ne have i: "int2 ?s = Some (digits_value ?s)" by (rule int2_binary)
    from Cons.prems(5) r Out
    have out: "out_regs = (pre @ ?s) @
        concat (map f (filter (\<lambda>r. fst (snd r) = Out) rs)) @ suf"
      by simp
    from Cons.prems(5,6) r Out ls
    have slice: "take len (drop start_bit_out out_regs) = ?s" by simp
    from Cons.prems(4) r Out have bound: "start_bit_in + sum_length In rs \<le> length in_regs"
      by simp
    from Cons.prems(6) ls have so: "start_bit_out + len = length (pre @ ?s)" by simp
    from Cons.IH [OF Cons.prems(1) lens dist bound out so f,
        of "m(name \<mapsto> int (digits_value ?s))"]
    obtain m' where m': "extract_loop in_regs out_regs rs start_bit_in (start_bit_out + len)
          (m(name \<mapsto> int (digits_value ?s))) = Inr m'"
      and keep: "\<forall>n. n \<notin> fst ` set rs \<longrightarrow> m' n = (m(name \<mapsto> int (digits_value ?s))) n"
      and vals: "\<forall>(name, md, len, ty) \<in> set rs. md = Out \<longrightarrow>
              m' name = Some (int (digits_value (f (name, md, len, ty))))"
      by blast
    from m' i r Out slice
    have "extract_loop in_regs out_regs (r # rs) start_bit_in start_bit_out m = Inr m'"
      by simp
    moreover from keep r have "\<forall>n. n \<notin> fst ` set (r # rs) \<longrightarrow> m' n = m n" by simp
    moreover from keep fresh have "m' name = Some (int (digits_value ?s))" by simp
    with vals r have "\<forall>(name, md, len, ty) \<in> set (r # rs). md = Out \<longrightarrow>
              m' name = Some (int (digits_value (f (name, md, len, ty))))" by simp
    ultimately show ?thesis by blast
  qed
qed

subsection \<open>The bits that write\_regs builds\<close>

lemma length_value_bits:
  assumes "representable ty len v" "0 < len"
  shows "length (value_bits ty len v) = len"
proof (cases "ty = Signed \<and> v < 0")
  case True
  have "v mod 2 ^ len < 2 ^ len" by simp
  then have "nat (v AND (2 ^ len - 1)) < 2 ^ len"
    by (simp add: int_and_mask nat_less_iff)
  with True assms(2) show ?thesis by (simp add: value_bits_def length_format_0b)
next
  case False
  define p q where "p = (2::int) ^ (len - 1)" and "q = (2::int) ^ len"
  have "p \<le> q" unfolding p_def q_def by (rule power_increasing) simp_all
  moreover from assms(1) have "if ty = Signed then - p \<le> v \<and> v < p else 0 \<le> v \<and> v < q"
    unfolding representable_def p_def q_def .
  ultimately have "0 \<le> v" "v < q" using False by (auto split: if_splits)
  then have "nat v < 2 ^ len" by (simp add: nat_less_iff q_def)
  with False assms(2) show ?thesis by (auto simp: value_bits_def length_format_0b)
qed

lemma digits_value_value_bits:
  assumes "representable ty len v"
  shows "int (digits_value (value_bits ty len v)) = (if v < 0 then v + 2 ^ len else v)"
proof (cases "ty = Signed \<and> v < 0")
  case True
  define p q where "p = (2::int) ^ (len - 1)" and "q = (2::int) ^ len"
  have "p \<le> q" unfolding p_def q_def by (rule power_increasing) simp_all
  moreover from assms have "if ty = Signed then - p \<le> v \<and> v < p else 0 \<le> v \<and> v < q"
    unfolding representable_def p_def q_def .
  ultimately have bounds: "0 \<le> v + q" "v + q < q" using True by auto
  have "v mod q = (v + q) mod q" by (rule mod_add_self2 [symmetric])
  also from bounds have "\<dots> = v + q" by (rule mod_pos_pos_trivial)
  finally have "v mod q = v + q" .
  then have "v mod 2 ^ len = v + 2 ^ len" unfolding q_def .
  with True bounds(1) show ?thesis by (simp add: value_bits_def int_and_mask q_def)
next
  case False
  with assms have "0 \<le> v" by (auto simp: representable_def split: if_splits)
  with False show ?thesis by (auto simp: value_bits_def)
qed

lemma build_bits_concat:
  "build_bits wv rs acc = Inr bits \<Longrightarrow>
   bits = acc @ concat (map (\<lambda>(name, md, len, ty). value_bits ty len (the (wv name)))
                   (filter (\<lambda>r. fst (snd r) = Out) rs))"
proof (induction rs arbitrary: acc)
  case Nil
  then show ?case by simp
next
  case (Cons r rs)
  obtain name md len ty where r: "r = (name, md, len, ty)" by (cases r) auto
  show ?case
  proof (cases "md = Out")
    case False
    with Cons.prems r have "build_bits wv rs acc = Inr bits" by simp
    from Cons.IH [OF this] False r show ?thesis by simp
  next
    case True
    with Cons.prems r obtain v where v: "wv name = Some v"
      and b: "build_bits wv rs (acc @ value_bits ty len v) = Inr bits"
      by (auto split: option.splits if_splits)
    from Cons.IH [OF b] True r v show ?thesis by simp
  qed
qed


subsection \<open>The two regions of the received data\<close>

lemma regs_length_dvd [simp]: "8 dvd regs_length m rs"
  by (simp add: regs_length_def)

lemma sum_length_le: "sum_length m rs \<le> regs_length m rs"
  unfolding regs_length_def by arith

lemma length_concat_format_08b [simp]: "length (concat (map format_08b bs)) = 8 * length bs"
  by (induction bs) simp_all

lemma binary_concat_format_08b [simp]: "binary (concat (map format_08b bs))"
  by (induction bs) simp_all

lemma binary_last_n: "binary s \<Longrightarrow> binary (last_n n s)"
  by (simp add: last_n_def binary_drop)

lemma last_n_length: "length xs = n \<Longrightarrow> last_n n xs = xs"
  by (simp add: last_n_def)

lemma in_region_length:
  assumes "regs_length In rs div 8 \<le> length data"
  shows "sum_length In rs \<le>
    length (last_n (regs_length In rs)
      (concat (map format_08b (last_n (regs_length In rs div 8) data))))"
proof (cases "regs_length In rs = 0")
  case True
  with sum_length_le [of In rs] show ?thesis by simp
next
  case False
  define k where "k = regs_length In rs div 8"
  have rl: "regs_length In rs = 8 * k" unfolding k_def by simp
  with False have "k \<noteq> 0" by simp
  with assms have "length (last_n k data) = k" by (simp add: last_n_def k_def)
  then have "length (concat (map format_08b (last_n k data))) = regs_length In rs"
    by (simp add: rl)
  then have "last_n (regs_length In rs) (concat (map format_08b (last_n k data)))
      = concat (map format_08b (last_n k data))"
    by (rule last_n_length)
  with \<open>length (last_n k data) = k\<close> sum_length_le [of In rs] show ?thesis
    by (simp add: k_def [symmetric] rl)
qed





subsection \<open>The values that read\_regs returns\<close>




lemma example_in_regs:
  "last_n (regs_length In [(''s'', Out, 4, Signed)])
     (concat (map format_08b (last_n (regs_length In [(''s'', Out, 4, Signed)] div 8) [0xF0])))
   = ''11110000''"
  by code_simp

lemma example_out_regs:
  "last_n (regs_length Out [(''s'', Out, 4, Signed)])
     (concat (map format_08b (take (regs_length Out [(''s'', Out, 4, Signed)] div 8) [0xF0])))
   = ''11110000''"
  by code_simp

lemma example_int2: "int2 ''1111'' = Some 15"
  by code_simp

lemma example_extract_regs:
  "extract_regs [(''s'', Out, 4, Signed)] [0xF0] = Inr [''s'' \<mapsto> 15]"
  unfolding extract_regs_def example_in_regs example_out_regs
  by (simp add: extract_bits_def example_int2)









subsection \<open>The layout of the out region\<close>

lemma byte_values_two:
  assumes "binary hi" "length hi = 8" "binary lo" "length lo = 8"
  shows "byte_values (hi @ lo) = Inr [of_nat (digits_value hi), of_nat (digits_value lo)]"
proof -
  from assms(1,2) have hi: "int2 hi = Some (digits_value hi)" by (auto simp: int2_def)
  from assms(3,4) have lo: "int2 lo = Some (digits_value lo)" by (auto simp: int2_def)
  from assms(4) have "lo \<noteq> []" by auto
  with assms(4) lo have "byte_values lo = Inr [of_nat (digits_value lo)]"
    by (subst byte_values.simps) (simp add: byte_values.simps)
  moreover from assms(2) have "hi @ lo \<noteq> []" by auto
  ultimately show ?thesis using assms(2) hi
    by (subst byte_values.simps) simp
qed


text \<open>
  Claim C3. For the schema with the 1-bit out register a and then the 8-bit out register
  b, and all values \<open>a < 2\<close> and \<open>b < 256\<close>, write\_regs builds the bit string of b's
  eight bits followed by a's bit, pads it with seven zeros and obtains two bytes: the first
  is b, the second has a in its highest bit and zeros below. The register declared last is
  in the highest bits of the region, the filler in the lowest.
\<close>

theorem pack_out_a_b:
  assumes "0 \<le> a" "a < 2" "0 \<le> b" "b < 256"
  shows "build_bits [''a'' \<mapsto> a, ''b'' \<mapsto> b]
           (rev [(''a'', Out, 1, Std_logic), (''b'', Out, 8, Std_logic_vector)]) [] =
           Inr (format_0b 8 (nat b) @ format_0b 1 (nat a)) \<and>
         pad8 (format_0b 8 (nat b) @ format_0b 1 (nat a)) =
           format_0b 8 (nat b) @ format_0b 1 (nat a) @ ''0000000'' \<and>
         pack_out [(''a'', Out, 1, Std_logic), (''b'', Out, 8, Std_logic_vector)]
           [''a'' \<mapsto> a, ''b'' \<mapsto> b] = Inr [word_of_int b, word_of_int (128 * a)]"
proof -
  let ?B = "format_0b 8 (nat b)" and ?A = "format_0b 1 (nat a)"
  from assms(3,4) have "nat b < 2 ^ 8" by simp
  then have lB: "length ?B = 8" by (simp add: length_format_0b)
  from assms(1,2) have "nat a < 2 ^ 1" by simp
  then have lA: "length ?A = 1" by (simp add: length_format_0b)
  from assms have bits: "build_bits [''a'' \<mapsto> a, ''b'' \<mapsto> b]
           (rev [(''a'', Out, 1, Std_logic), (''b'', Out, 8, Std_logic_vector)]) [] =
           Inr (?B @ ?A)"
    by (simp add: value_bits_def)
  have zeros: "replicate 7 (CHR ''0'') = ''0000000''" by code_simp
  from lA lB have "pad8 (?B @ ?A) = ?B @ ?A @ replicate 7 (CHR ''0'')"
    by (simp add: pad8_def)
  then have pad: "pad8 (?B @ ?A) = ?B @ ?A @ ''0000000''" by (simp only: zeros)
  have lo: "binary (?A @ ''0000000'')" "length (?A @ ''0000000'') = 8"
    using lA by (simp_all add: zeros [symmetric] del: replicate.simps)
  have "digits_value (?A @ replicate 7 (CHR ''0'')) = digits_value ?A * 2 ^ 7"
    by (simp add: digits_value_append)
  then have dlo: "digits_value (?A @ ''0000000'') = nat a * 128" by (simp add: zeros)
  from byte_values_two [OF binary_format_0b lB lo]
  have "byte_values (?B @ ?A @ ''0000000'') = Inr [of_nat (nat b), of_nat (nat a * 128)]"
    by (simp only: dlo digits_value_format_0b)
  moreover from assms(3) have "(of_nat (nat b) :: byte) = word_of_int b" by simp
  moreover from assms(1) have "(of_nat (nat a * 128) :: byte) = word_of_int (128 * a)"
    by (simp add: mult.commute)
  ultimately have "byte_values (?B @ ?A @ ''0000000'') = Inr [word_of_int b, word_of_int (128 * a)]"
    by simp
  with bits pad have "pack_out [(''a'', Out, 1, Std_logic), (''b'', Out, 8, Std_logic_vector)]
           [''a'' \<mapsto> a, ''b'' \<mapsto> b] = Inr [word_of_int b, word_of_int (128 * a)]"
    by (simp add: pack_out_def)
  with bits pad show ?thesis by (intro conjI)
qed


text \<open>The theorem at a = 1, b = 0xFF, which gives the bytes [0xFF, 0x80], and at two inputs
  that tell the registers apart.\<close>

theorem pack_out_a_b_witness:
  "pack_out [(''a'', Out, 1, Std_logic), (''b'', Out, 8, Std_logic_vector)]
     [''a'' \<mapsto> 1, ''b'' \<mapsto> 255] = Inr [0xFF, 0x80] \<and>
   pack_out [(''a'', Out, 1, Std_logic), (''b'', Out, 8, Std_logic_vector)]
     [''a'' \<mapsto> 0, ''b'' \<mapsto> 255] = Inr [0xFF, 0x00] \<and>
   pack_out [(''a'', Out, 1, Std_logic), (''b'', Out, 8, Std_logic_vector)]
     [''a'' \<mapsto> 1, ''b'' \<mapsto> 0] = Inr [0x00, 0x80]"
  using pack_out_a_b [of 1 255] pack_out_a_b [of 0 255] pack_out_a_b [of 1 0]
  by simp

subsection \<open>From write\_regs to read\_regs and back\<close>

lemma pad_arith: "(n::nat) + (8 - n mod 8) mod 8 = (n + 7) div 8 * 8"
proof -
  define q r where "q = n div 8" and "r = n mod 8"
  have n: "n = 8 * q + r" and r: "r < 8" by (simp_all add: q_def r_def)
  show ?thesis
  proof (cases "r = 0")
    case True
    with n have "n + 7 = 7 + q * 8" by simp
    then have "(n + 7) div 8 = q" by simp
    with n True show ?thesis unfolding r_def [symmetric] by simp
  next
    case False
    with r have m: "(8 - r) mod 8 = 8 - r" by simp
    from False n have "n + 7 = (r - 1) + (q + 1) * 8" by simp
    then have "(n + 7) div 8 = (r - 1) div 8 + (q + 1)" by simp
    with r have "(n + 7) div 8 = q + 1" by simp
    with n r m show ?thesis unfolding r_def [symmetric] by simp
  qed
qed

lemma length_pad8: "length (pad8 s) = (length s + 7) div 8 * 8"
  by (simp add: pad8_def pad_arith)

lemma binary_pad8: "binary s \<Longrightarrow> binary (pad8 s)"
  by (simp add: pad8_def)

lemma length_concat_out:
  "\<forall>(name, md, len, ty) \<in> set rs. md = Out \<longrightarrow> length (f (name, md, len, ty)) = len \<Longrightarrow>
   length (concat (map f (filter (\<lambda>r. fst (snd r) = Out) rs))) = sum_length Out rs"
proof (induction rs)
  case Nil
  then show ?case by simp
next
  case (Cons r rs)
  obtain name md len ty where r: "r = (name, md, len, ty)" by (cases r) auto
  from Cons.prems have "\<forall>(name, md, len, ty) \<in> set rs. md = Out \<longrightarrow>
      length (f (name, md, len, ty)) = len" by simp
  from Cons.IH [OF this] Cons.prems r show ?case by simp
qed

lemma example_signed_minus_1:
  "pack_out [(''s'', Out, 4, Signed)] [''s'' \<mapsto> - 1] = Inr [0xF0]"
  by code_simp

lemma example_representable_minus_1: "representable Signed 4 (- 1)"
  by (simp add: representable_def)

lemma example_schema3:
  "valid_schema [(''i'', In, 3, Unsigned), (''s'', Out, 4, Signed), (''u'', Out, 8, Unsigned)]"
  by code_simp

lemma example_small3:
  "sum_length In [(''i'', In, 3, Unsigned), (''s'', Out, 4, Signed), (''u'', Out, 8, Unsigned)]
     < 2 ^ 53"
  "sum_length Out [(''i'', In, 3, Unsigned), (''s'', Out, 4, Signed), (''u'', Out, 8, Unsigned)]
     < 2 ^ 53"
  by (simp_all add: sum_length_def)

lemma example_complete3:
  "complete_for [(''i'', In, 3, Unsigned), (''s'', Out, 4, Signed), (''u'', Out, 8, Unsigned)]
     [''s'' \<mapsto> - 1, ''u'' \<mapsto> 200]"
  by code_simp

lemma example_range3:
  "all_representable
     [(''i'', In, 3, Unsigned), (''s'', Out, 4, Signed), (''u'', Out, 8, Unsigned)]
     [''s'' \<mapsto> - 1, ''u'' \<mapsto> 200]"
  by code_simp

lemma example_in_bytes3:
  "length [0x05 :: byte] =
     regs_length In [(''i'', In, 3, Unsigned), (''s'', Out, 4, Signed), (''u'', Out, 8, Unsigned)]
       div 8"
  by code_simp


text \<open>
  Claim C1, as the code has it, for the out direction (the only one the code packs). For
  a schema with distinct names, positive bit lengths and fewer than \<open>2 ^ 53\<close> bits in each
  direction, and a dict that holds an in-range value for every out register, write\_regs
  builds bytes, and the extraction of read\_regs, applied to these bytes followed by the
  bytes of the in region, returns every non-negative value as it was written, and a
  negative value \<open>v\<close> of a signed register as \<open>v + 2 ^ len\<close>, its bit pattern read unsigned.
\<close>

theorem pack_out_extract_regs:
  assumes schema: "valid_schema registers"
    and small: "sum_length In registers < 2 ^ 53" "sum_length Out registers < 2 ^ 53"
    and complete: "complete_for registers wv"
    and range: "all_representable registers wv"
    and ins: "length in_bytes = regs_length In registers div 8"
  shows "\<exists>bs m. pack_out registers wv = Inr bs \<and>
           extract_regs registers (bs @ in_bytes) = Inr m \<and>
           (\<forall>(name, md, len, ty) \<in> set registers. md = Out \<longrightarrow>
              (\<exists>v. wv name = Some v \<and> m name = Some (if v < 0 then v + 2 ^ len else v)))"
proof -
  define f :: "register \<Rightarrow> string"
    where "f = (\<lambda>(name, md, len, ty). value_bits ty len (the (wv name)))"
  define outs where "outs = filter (\<lambda>r. fst (snd r) = Out) (rev registers)"
  from schema have lens: "list_all (\<lambda>(name, md, len, ty). 0 < len) (rev registers)"
    and dist: "distinct (map fst (rev registers))"
    by (simp_all add: valid_schema_def reg_names_def rev_map [symmetric])
  have vals: "\<exists>v. wv name = Some v \<and> representable ty len v \<and> 0 < len"
    if "(name, md, len, ty) \<in> set registers" "md = Out" for name md len ty
  proof -
    from range that have "case wv name of None \<Rightarrow> False | Some v \<Rightarrow> representable ty len v"
      by (auto simp: all_representable_def list_all_iff)
    moreover from schema that have "0 < len" by (auto simp: valid_schema_def list_all_iff)
    ultimately show ?thesis by (cases "wv name") simp_all
  qed
  have fs: "\<forall>(name, md, len, ty) \<in> set (rev registers). md = Out \<longrightarrow>
      binary (f (name, md, len, ty)) \<and> length (f (name, md, len, ty)) = len"
  proof (intro ballI, clarify)
    fix name md len ty
    assume "(name, Out, len, ty) \<in> set (rev registers)"
    with vals [of name Out len ty] obtain v
      where "wv name = Some v" "representable ty len v" "0 < len" by auto
    then show "binary (f (name, Out, len, ty)) \<and> length (f (name, Out, len, ty)) = len"
      by (simp add: f_def length_value_bits)
  qed
  from complete range pack_out_ok_iff [of registers wv]
  obtain bs where bs: "pack_out registers wv = Inr bs" by blast
  then obtain bits where bits: "build_bits wv (rev registers) [] = Inr bits"
    and bytes: "byte_values (pad8 bits) = Inr bs"
    by (auto simp: pack_out_def split: sum.splits)
  from build_bits_concat [OF bits] have bits_eq: "bits = concat (map f outs)"
    by (simp add: f_def outs_def)
  from fs have "\<forall>(name, md, len, ty) \<in> set (rev registers). md = Out \<longrightarrow>
      length (f (name, md, len, ty)) = len" by blast
  from length_concat_out [OF this] have lbits: "length bits = sum_length Out registers"
    by (simp add: bits_eq outs_def)
  then have lpad: "length (pad8 bits) = regs_length Out registers"
    by (simp add: length_pad8 regs_length_def)
  then have dv: "8 dvd length (pad8 bits)" by simp
  from build_bits_binary [OF bits] have bp: "binary (pad8 bits)" by (simp add: binary_pad8)
  from byte_values_format [OF bp dv bytes] have fmt: "concat (map format_08b bs) = pad8 bits" .
  from length_byte_values [OF bytes dv] lpad have lbs: "length bs = regs_length Out registers div 8"
    by simp
  let ?data = "bs @ in_bytes"
  let ?in = "last_n (regs_length In registers)
      (concat (map format_08b (last_n (regs_length In registers div 8) ?data)))"
  let ?out = "last_n (regs_length Out registers)
      (concat (map format_08b (take (regs_length Out registers div 8) ?data)))"
  from lbs have tk: "take (regs_length Out registers div 8) ?data = bs" by simp
  from lpad have "last_n (regs_length Out registers) (pad8 bits) = pad8 bits"
    by (rule last_n_length)
  with tk fmt have "?out = pad8 bits" by simp
  then have out: "?out = [] @ concat (map f (filter (\<lambda>r. fst (snd r) = Out) (rev registers)))
      @ replicate ((8 - length bits mod 8) mod 8) (CHR ''0'')"
    by (simp add: pad8_def bits_eq outs_def)
  from ins have "regs_length In registers div 8 \<le> length ?data" by simp
  from in_region_length [OF this] have si: "0 + sum_length In (rev registers) \<le> length ?in"
    by simp
  have bi: "binary ?in" by (simp add: binary_last_n)
  have so: "(0::nat) = length ([] :: string)" by simp
  from extract_loop_out [OF bi lens dist si out so fs, of Map.empty]
  obtain m where m: "extract_loop ?in ?out (rev registers) 0 0 Map.empty = Inr m"
    and mv: "\<forall>(name, md, len, ty) \<in> set (rev registers). md = Out \<longrightarrow>
              m name = Some (int (digits_value (f (name, md, len, ty))))"
    by blast
  from m have ex: "extract_regs registers ?data = Inr m" by (simp add: extract_regs_def)
  have "\<forall>(name, md, len, ty) \<in> set registers. md = Out \<longrightarrow>
      (\<exists>v. wv name = Some v \<and> m name = Some (if v < 0 then v + 2 ^ len else v))"
  proof (intro ballI, clarify)
    fix name md len ty
    assume r: "(name, Out, len, ty) \<in> set registers"
    with vals [of name Out len ty] obtain v
      where v: "wv name = Some v" "representable ty len v" by auto
    from mv r have "m name = Some (int (digits_value (f (name, Out, len, ty))))" by auto
    with v digits_value_value_bits [OF v(2)]
    show "\<exists>v. wv name = Some v \<and> m name = Some (if v < 0 then v + 2 ^ len else v)"
      by (simp add: f_def)
  qed
  with bs ex show ?thesis by blast
qed

text \<open>The theorem at a schema with an in register, a signed out register holding \<open>-1\<close> and
  an unsigned out register holding 200.\<close>

theorem pack_out_extract_regs_witness:
  "\<exists>bs m.
     pack_out [(''i'', In, 3, Unsigned), (''s'', Out, 4, Signed), (''u'', Out, 8, Unsigned)]
       [''s'' \<mapsto> - 1, ''u'' \<mapsto> 200] = Inr bs \<and>
     extract_regs [(''i'', In, 3, Unsigned), (''s'', Out, 4, Signed), (''u'', Out, 8, Unsigned)]
       (bs @ [0x05]) = Inr m \<and>
     (\<forall>(name, md, len, ty) \<in>
         set [(''i'', In, 3, Unsigned), (''s'', Out, 4, Signed), (''u'', Out, 8, Unsigned)].
        md = Out \<longrightarrow>
          (\<exists>v. [''s'' \<mapsto> - 1, ''u'' \<mapsto> 200] name = Some v \<and>
               m name = Some (if v < 0 then v + 2 ^ len else v)))"
  by (rule pack_out_extract_regs
      [OF example_schema3 example_small3 example_complete3 example_range3 example_in_bytes3])

text \<open>
  Claim C1 as it is worded fails at a negative value: \<open>-1\<close> is in the range of a 4-bit
  signed register, write\_regs builds the byte 0xF0 for it, and the extraction of read\_regs
  returns 15 from that byte.
\<close>

theorem pack_out_extract_regs_counterexample:
  "representable Signed 4 (- 1) \<and>
   pack_out [(''s'', Out, 4, Signed)] [''s'' \<mapsto> - 1] = Inr [0xF0] \<and>
   extract_regs [(''s'', Out, 4, Signed)] [0xF0] = Inr [''s'' \<mapsto> 15] \<and>
   [''s'' \<mapsto> 15] \<noteq> [''s'' \<mapsto> - 1 :: int]"
proof (intro conjI)
  show "representable Signed 4 (- 1)" by (rule example_representable_minus_1)
  show "pack_out [(''s'', Out, 4, Signed)] [''s'' \<mapsto> - 1] = Inr [0xF0]"
    by (rule example_signed_minus_1)
  show "extract_regs [(''s'', Out, 4, Signed)] [0xF0] = Inr [''s'' \<mapsto> 15]"
    by (rule example_extract_regs)
  have "[''s'' \<mapsto> 15::int] ''s'' \<noteq> [''s'' \<mapsto> - 1] ''s''" by simp
  then show "[''s'' \<mapsto> 15] \<noteq> [''s'' \<mapsto> - 1 :: int]" by metis
qed

subsection \<open>The state after read\_regs and read\_back\_missing\_out\_regs\<close>

lemma ser_write_state [simp]:
  "heap (snd (ser_write bs s)) = heap s"
  "next_ref (snd (ser_write bs s)) = next_ref s"
  "incoming (snd (ser_write bs s)) = incoming s"
  "accept (snd (ser_write bs s)) = accept s"
  "sent (snd (ser_write bs s)) = sent s @ take (accept s) bs"
  by (simp_all add: ser_write_def)

lemma read_regs_cases:
  obtains e rest where "receive (incoming s) = (Inl e, rest)"
      "read_regs registers s = (Inl e, (snd (ser_write [READ_REQ] s))\<lparr>incoming := rest\<rparr>)"
  | res data rest where "receive (incoming s) = (Inr data, rest)"
      "read_regs registers s = (res, (snd (ser_write [READ_REQ] s))\<lparr>incoming := rest\<rparr>)"
proof (cases "receive (incoming s)")
  case (Pair r rest)
  show ?thesis
  proof (cases r)
    case (Inl e)
    with Pair have "read_regs registers s =
        (Inl e, (snd (ser_write [READ_REQ] s))\<lparr>incoming := rest\<rparr>)"
      by (simp add: read_regs_def)
    with Pair Inl show ?thesis using that(1) by simp
  next
    case (Inr data)
    with Pair have "\<exists>res. read_regs registers s =
        (res, (snd (ser_write [READ_REQ] s))\<lparr>incoming := rest\<rparr>)"
      by (simp add: read_regs_def)
    with Pair Inr show ?thesis using that(2) by auto
  qed
qed

lemma read_regs_state [simp]:
  "heap (snd (read_regs registers s)) = heap s"
  "next_ref (snd (read_regs registers s)) = next_ref s"
  "accept (snd (read_regs registers s)) = accept s"
  "sent (snd (read_regs registers s)) = sent s @ take (accept s) [READ_REQ]"
  by (rule read_regs_cases [of s registers]; simp)+


lemma fill_missing_state [simp]:
  "sent (snd (fill_missing names current_values r s)) = sent s"
  "incoming (snd (fill_missing names current_values r s)) = incoming s"
  "accept (snd (fill_missing names current_values r s)) = accept s"
  "next_ref (snd (fill_missing names current_values r s)) = next_ref s"
  by (induction names arbitrary: s; simp split: option.splits)+

lemma fill_missing_other:
  "r' \<noteq> r \<Longrightarrow> heap (snd (fill_missing names current_values r s)) r' = heap s r'"
  by (induction names arbitrary: s) (simp_all split: option.splits)

lemma read_back_other:
  assumes "r \<noteq> next_ref s"
  shows "heap (snd (read_back_missing_out_regs registers write_values s)) r = heap s r"
proof (cases "missing_values registers (heap s write_values) = []")
  case True
  with assms show ?thesis by (simp add: read_back_missing_out_regs_def)
next
  case False
  define s2 where "s2 = s\<lparr>heap := (heap s)(next_ref s := heap s write_values),
                next_ref := Suc (next_ref s)\<rparr>"
  obtain r1 s3 where rr: "read_regs registers s2 = (r1, s3)"
    by (cases "read_regs registers s2")
  from read_regs_state(1) [of registers s2] rr have "heap s3 = heap s2" by simp
  with assms have h3: "heap s3 r = heap s r" by (simp add: s2_def)
  show ?thesis
  proof (cases r1)
    case (Inl e)
    with False rr h3 show ?thesis
      by (simp add: read_back_missing_out_regs_def s2_def [symmetric])
  next
    case (Inr current_values)
    obtain res s4 where f: "fill_missing (missing_values registers (heap s write_values))
        current_values (next_ref s) s3 = (res, s4)"
      by (cases "fill_missing (missing_values registers (heap s write_values))
        current_values (next_ref s) s3")
    from fill_missing_other [OF assms, of "missing_values registers (heap s write_values)"
        current_values s3] f h3
    have "heap s4 r = heap s r" by simp
    with False rr Inr f show ?thesis
      by (cases res) (simp_all add: read_back_missing_out_regs_def s2_def [symmetric])
  qed
qed

lemma example_write_sent:
  "sent (snd (write_regs [(''a'', Out, 4, Unsigned), (''b'', Out, 4, Unsigned)] 0
     \<lparr>sent = [], incoming = [START_WRITE, 0x21, END_WRITE], accept = 64,
      heap = (\<lambda>r. Map.empty)(0 := [''a'' \<mapsto> 3]), next_ref = 1\<rparr>)) =
   [READ_REQ, START_WRITE, 0x23, END_WRITE]"
  by code_simp

lemma example_write_copy:
  "heap (snd (write_regs [(''a'', Out, 4, Unsigned), (''b'', Out, 4, Unsigned)] 0
     \<lparr>sent = [], incoming = [START_WRITE, 0x21, END_WRITE], accept = 64,
      heap = (\<lambda>r. Map.empty)(0 := [''a'' \<mapsto> 3]), next_ref = 1\<rparr>)) 1 ''b'' = Some 2"
  by code_simp


text \<open>
  Claim C10. The dict that the caller passes to write\_regs, an object that exists before
  the call (its reference is below \<open>next_ref\<close>), has the same entries after the call as
  before, whatever the call returns: the values read back are stored into the copy that
  read\_back\_missing\_out\_regs allocates.
\<close>

theorem write_regs_heap:
  assumes "write_values < next_ref s"
  shows "heap (snd (write_regs registers write_values s)) write_values = heap s write_values"
proof -
  from assms have ne: "write_values \<noteq> next_ref s" by simp
  obtain res s1 where rb: "read_back_missing_out_regs registers write_values s = (res, s1)"
    by (cases "read_back_missing_out_regs registers write_values s")
  from read_back_other [OF ne, of registers write_values] rb
  have h1: "heap s1 write_values = heap s write_values" by simp
  show ?thesis
  proof (cases res)
    case (Inl e)
    with rb h1 show ?thesis by (simp add: write_regs_def)
  next
    case (Inr cwv)
    with rb h1 show ?thesis
      by (cases "pack_out registers (heap s1 cwv)") (simp_all add: write_regs_def)
  qed
qed

text \<open>
  The theorem at a call that reads back: the caller's dict holds a = 3 only, the device
  answers the byte 0x21 (b = 2, a = 1). The caller's dict is unchanged, the copy holds
  b = 2, and the frame sent after the read request carries 0x23.
\<close>

theorem write_regs_heap_witness:
  "heap (snd (write_regs [(''a'', Out, 4, Unsigned), (''b'', Out, 4, Unsigned)] 0
     \<lparr>sent = [], incoming = [START_WRITE, 0x21, END_WRITE], accept = 64,
      heap = (\<lambda>r. Map.empty)(0 := [''a'' \<mapsto> 3]), next_ref = 1\<rparr>)) 0 = [''a'' \<mapsto> 3] \<and>
   heap (snd (write_regs [(''a'', Out, 4, Unsigned), (''b'', Out, 4, Unsigned)] 0
     \<lparr>sent = [], incoming = [START_WRITE, 0x21, END_WRITE], accept = 64,
      heap = (\<lambda>r. Map.empty)(0 := [''a'' \<mapsto> 3]), next_ref = 1\<rparr>)) 1 ''b'' = Some 2 \<and>
   sent (snd (write_regs [(''a'', Out, 4, Unsigned), (''b'', Out, 4, Unsigned)] 0
     \<lparr>sent = [], incoming = [START_WRITE, 0x21, END_WRITE], accept = 64,
      heap = (\<lambda>r. Map.empty)(0 := [''a'' \<mapsto> 3]), next_ref = 1\<rparr>)) =
   [READ_REQ, START_WRITE, 0x23, END_WRITE]"
proof (intro conjI)
  have "(0::nat) < next_ref \<lparr>sent = [], incoming = [START_WRITE, 0x21, END_WRITE], accept = 64,
      heap = (\<lambda>r. Map.empty)(0 := [''a'' \<mapsto> 3]), next_ref = 1\<rparr>" by simp
  from write_regs_heap [OF this, of "[(''a'', Out, 4, Unsigned), (''b'', Out, 4, Unsigned)]"]
  show "heap (snd (write_regs [(''a'', Out, 4, Unsigned), (''b'', Out, 4, Unsigned)] 0
     \<lparr>sent = [], incoming = [START_WRITE, 0x21, END_WRITE], accept = 64,
      heap = (\<lambda>r. Map.empty)(0 := [''a'' \<mapsto> 3]), next_ref = 1\<rparr>)) 0 = [''a'' \<mapsto> 3]"
    by simp
qed (fact example_write_copy example_write_sent)+


subsection \<open>The range error of write\_regs and the port\<close>

















subsection \<open>Names that are not out registers\<close>








lemma validate_names_ok:
  "validate_names registers names = Inr () \<longleftrightarrow>
   set names \<subseteq> set (out_register_names registers)"
  by (induction names) auto















end
